theory Spec2Isabelle
  imports Main "HOL-Library.Word"
begin

unbundle bit_operations_syntax

section \<open>The PSS codec of \<^verbatim>\<open>src/lib/pk_pad/sig_padding/emsa_pssr/pssr.cpp\<close>\<close>

text \<open>
  Buffers are lists of bytes. Sizes (\<^verbatim>\<open>size_t\<close>) are natural numbers: buffer lengths
  and key sizes stay far below \<open>2 ^ 64\<close>, so no size computation of the codec wraps
  around, except the subtractions that the code guards by an earlier check; where such
  a guard is what keeps a subtraction from wrapping, the model has a branch for the
  wrapped case. Every exception, assertion failure and out-of-range access of the code
  is a value of type \<open>error\<close>.
\<close>

type_synonym byte = "8 word"

datatype error =
    Encoding_Error string
  | Internal_Error
  | Out_Of_Bounds

subsection \<open>Collaborators\<close>

text \<open>
  Modelled from the spec: the class \<^verbatim>\<open>HashFunction\<close> is not part of the sources.
  The spec gives its interface: \<^verbatim>\<open>output_length()\<close>, \<^verbatim>\<open>update(bytes)\<close> and
  \<^verbatim>\<open>final()\<close>, which returns the digest of everything fed since the last reset and
  resets the object. A hash object is its output length together with the function
  from the fed bytes to the digest; the bytes fed so far are an explicit list, empty
  for a fresh or freshly finalised object.
\<close>

record HashFunction =
  output_length :: nat
  digest :: "byte list \<Rightarrow> byte list"

definition update :: "byte list \<Rightarrow> byte list \<Rightarrow> byte list" where
  "update fed input = fed @ input"

definition final_stdvec :: "HashFunction \<Rightarrow> byte list \<Rightarrow> byte list" where
  "final_stdvec hash fed = digest hash fed"

text \<open>The contract of the hash: a digest has exactly \<open>output_length\<close> bytes.\<close>

definition hash_ok :: "HashFunction \<Rightarrow> bool" where
  "hash_ok hash = (\<forall>m. length (digest hash m) = output_length hash)"

text \<open>
  Modelled from the spec: \<^verbatim>\<open>mgf1_mask(hash, seed, seed_len, out, out_len)\<close> is not
  part of the sources. The spec describes it as a deterministic generator that XORs a
  mask of \<^verbatim>\<open>out_len\<close> bytes, derived from the seed, into the first \<^verbatim>\<open>out_len\<close>
  bytes of the output buffer. The generator itself is a parameter \<open>mgf\<close>: seed and
  length to mask.
\<close>

type_synonym mask_generator = "byte list \<Rightarrow> nat \<Rightarrow> byte list"

definition mgf_ok :: "mask_generator \<Rightarrow> bool" where
  "mgf_ok mgf = (\<forall>seed n. length (mgf seed n) = n)"

definition mgf1_mask :: "mask_generator \<Rightarrow> byte list \<Rightarrow> byte list \<Rightarrow> nat \<Rightarrow> byte list" where
  "mgf1_mask mgf seed out out_len =
     map2 (XOR) (take out_len out) (mgf seed out_len) @ drop out_len out"

text \<open>
  Modelled from the spec: \<^verbatim>\<open>ceil_tobytes\<close> and \<^verbatim>\<open>high_bit\<close> are not part of the
  sources. The spec reads them as \<open>ceil(bits / 8)\<close> and as the bit length of a byte
  (the index of the highest set bit plus one, \<open>0\<close> for the byte \<open>0\<close>).
\<close>

definition ceil_tobytes :: "nat \<Rightarrow> nat" where
  "ceil_tobytes bits = (bits + 7) div 8"

fun bit_length :: "nat \<Rightarrow> nat" where
  "bit_length n = (if n = 0 then 0 else Suc (bit_length (n div 2)))"

declare bit_length.simps [simp del]

definition high_bit :: "byte \<Rightarrow> nat" where
  "high_bit b = bit_length (unat b)"

text \<open>
  Modelled from the spec: \<^verbatim>\<open>BufferStuffer\<close> is not part of the sources (the spec
  names it a buffer-stuffing utility). It wraps a buffer and fills it from the left;
  an append that does not fit fails an assertion. The record holds the wrapped buffer
  itself, since the codec also writes to that buffer directly while the stuffer is
  live.
\<close>

record BufferStuffer =
  buf :: "byte list"
  pos :: nat

definition stuffer_of :: "byte list \<Rightarrow> BufferStuffer" where
  "stuffer_of b = \<lparr>buf = b, pos = 0\<rparr>"

definition remaining_capacity :: "BufferStuffer \<Rightarrow> nat" where
  "remaining_capacity s = length (buf s) - pos s"

definition stuffer_append :: "BufferStuffer \<Rightarrow> byte list \<Rightarrow> error + BufferStuffer" where
  "stuffer_append s bs =
     (if length bs \<le> remaining_capacity s
      then Inr (s\<lparr>buf := take (pos s) (buf s) @ bs @ drop (pos s + length bs) (buf s),
                 pos := pos s + length bs\<rparr>)
      else Inl Internal_Error)"

definition stuffer_append_fill :: "BufferStuffer \<Rightarrow> byte \<Rightarrow> nat \<Rightarrow> error + BufferStuffer" where
  "stuffer_append_fill s b n = stuffer_append s (replicate n b)"

definition full :: "BufferStuffer \<Rightarrow> bool" where
  "full s = (remaining_capacity s = 0)"

text \<open>
  \<^verbatim>\<open>buffer[0] &= mask\<close> on a raw buffer: out of range on an empty one.
\<close>

definition and_first :: "byte list \<Rightarrow> byte \<Rightarrow> error + byte list" where
  "and_first b m = (case b of [] \<Rightarrow> Inl Out_Of_Bounds | x # xs \<Rightarrow> Inr ((x AND m) # xs))"

text \<open>\<^verbatim>\<open>buffer[i]\<close>, read.\<close>

definition at :: "byte list \<Rightarrow> nat \<Rightarrow> error + byte" where
  "at b i = (if i < length b then Inr (b ! i) else Inl Out_Of_Bounds)"

text \<open>
  Modelled from the spec: \<^verbatim>\<open>CT::is_equal(x, y, len)\<close> is not part of the sources.
  The spec names it the equality of two byte arrays on their first \<^verbatim>\<open>len\<close> bytes,
  in time that does not depend on the place of a difference; the time is not modelled.
\<close>

definition is_equal :: "byte list \<Rightarrow> byte list \<Rightarrow> nat \<Rightarrow> bool" where
  "is_equal x y len = (take len x = take len y)"

subsection \<open>\<^verbatim>\<open>pss_encode\<close>\<close>

text \<open>
  The hash object is taken fresh, as the wrappers pass it after \<^verbatim>\<open>raw_data\<close>:
  the three \<^verbatim>\<open>update\<close> calls start from the empty list. The subtraction in the
  first \<^verbatim>\<open>append\<close> would wrap around to a count that no buffer can hold when the
  buffer is shorter than the fixed part; the assertion inside \<^verbatim>\<open>append\<close> then fails.
\<close>

definition pss_encode ::
  "HashFunction \<Rightarrow> mask_generator \<Rightarrow> byte list \<Rightarrow> byte list \<Rightarrow> nat \<Rightarrow> error + byte list" where
  "pss_encode hash mgf msg salt output_bits =
    (let HASH_SIZE = output_length hash in
     if length msg \<noteq> HASH_SIZE
     then Inl (Encoding_Error ''Cannot encode PSS string, input length invalid for hash'')
     else if output_bits < 8 * HASH_SIZE + 8 * length salt + 9
     then Inl (Encoding_Error ''Cannot encode PSS string, output length too small'')
     else
       let out_len = ceil_tobytes output_bits;
           db0_mask = drop_bit (8 * out_len - output_bits) (0xFF :: byte);
           padding = replicate 8 (0 :: byte);
           H = final_stdvec hash (update (update (update [] padding) msg) salt);
           db_len = out_len - HASH_SIZE - 1;
           EM = replicate out_len (0 :: byte);
           stuffer = stuffer_of EM
       in
       if remaining_capacity stuffer < 1 + length salt + length H + 1
       then Inl Internal_Error
       else
       case stuffer_append_fill stuffer 0x00
              (remaining_capacity stuffer - (1 + length salt + length H + 1)) of
         Inl e \<Rightarrow> Inl e
       | Inr s1 \<Rightarrow>
       (case stuffer_append s1 [0x01] of
         Inl e \<Rightarrow> Inl e
       | Inr s2 \<Rightarrow>
       (case stuffer_append s2 salt of
         Inl e \<Rightarrow> Inl e
       | Inr s3 \<Rightarrow>
       (case and_first (mgf1_mask mgf H (buf s3) db_len) db0_mask of
         Inl e \<Rightarrow> Inl e
       | Inr EM' \<Rightarrow>
       (case stuffer_append (s3\<lparr>buf := EM'\<rparr>) H of
         Inl e \<Rightarrow> Inl e
       | Inr s4 \<Rightarrow>
       (case stuffer_append s4 [0xBC] of
         Inl e \<Rightarrow> Inl e
       | Inr s5 \<Rightarrow>
         if full s5 then Inr (buf s5) else Inl Internal_Error))))))"

subsection \<open>\<^verbatim>\<open>pss_verify\<close>\<close>

text \<open>Lines 89 to 97: the copy of the representation, left-padded to the key length.\<close>

definition pad_coded :: "byte list \<Rightarrow> nat \<Rightarrow> error + byte list" where
  "pad_coded pss_repr key_bytes =
     (if length pss_repr < key_bytes
      then
        (case stuffer_append_fill (stuffer_of (replicate key_bytes 0)) 0x00
                (key_bytes - length pss_repr) of
           Inl e \<Rightarrow> Inl e
         | Inr s1 \<Rightarrow>
        (case stuffer_append s1 pss_repr of
           Inl e \<Rightarrow> Inl e
         | Inr s2 \<Rightarrow> Inr (buf s2)))
      else Inr pss_repr)"

definition top_bits_of :: "nat \<Rightarrow> nat" where
  "top_bits_of key_bits = 8 * ((key_bits + 7) div 8) - key_bits"

text \<open>
  Lines 115 to 126: the scan for the \<open>0x01\<close> marker from index \<open>j\<close> on. The result
  is \<open>None\<close> where the loop returns \<^verbatim>\<open>false\<close>, and otherwise the value of
  \<^verbatim>\<open>salt_offset\<close> after the loop, which is still \<open>0\<close> when no marker was found.
\<close>

fun scan_DB :: "byte list \<Rightarrow> nat \<Rightarrow> nat option" where
  "scan_DB [] j = Some 0"
| "scan_DB (b # bs) j =
     (if b = 0x01 then Some (j + 1)
      else if b \<noteq> 0x00 then None
      else scan_DB bs (Suc j))"

text \<open>
  Lines 105 to 112: the data block after unmasking. \<^verbatim>\<open>H\<close> points into
  \<^verbatim>\<open>coded\<close> behind the data block, so the mask leaves it as it is.
\<close>

definition claimed_H :: "HashFunction \<Rightarrow> byte list \<Rightarrow> byte list" where
  "claimed_H hash coded =
     take (output_length hash) (drop (length coded - output_length hash - 1) coded)"

definition unmask_DB ::
  "HashFunction \<Rightarrow> mask_generator \<Rightarrow> byte list \<Rightarrow> nat \<Rightarrow> error + byte list" where
  "unmask_DB hash mgf coded key_bits =
     (let DB_size = length coded - output_length hash - 1 in
      case and_first (mgf1_mask mgf (claimed_H hash coded) coded DB_size)
             (drop_bit (top_bits_of key_bits) (0xFF :: byte)) of
        Inl e \<Rightarrow> Inl e
      | Inr coded' \<Rightarrow> Inr (take DB_size coded'))"

text \<open>
  The pointer \<^verbatim>\<open>out_salt_size\<close> is \<open>None\<close> for \<^verbatim>\<open>nullptr\<close> and \<open>Some v\<close> for a
  location that holds \<open>v\<close>; the function returns the content of the location after the
  call next to its result.

  Lines 99 to 143, on the padded copy \<^verbatim>\<open>coded\<close>. The hash object is taken fresh,
  as in \<^verbatim>\<open>pss_encode\<close>.
\<close>

definition verify_coded ::
  "HashFunction \<Rightarrow> mask_generator \<Rightarrow> byte list \<Rightarrow> byte list \<Rightarrow> nat \<Rightarrow> nat option
     \<Rightarrow> error + (bool \<times> nat option)" where
  "verify_coded hash mgf coded message_hash key_bits out_salt_size =
    (let HASH_SIZE = output_length hash in
     case at coded 0 of
       Inl e \<Rightarrow> Inl e
     | Inr coded0 \<Rightarrow>
     if top_bits_of key_bits > 8 - high_bit coded0 then Inr (False, out_salt_size)
     else if length coded < HASH_SIZE + 1 then Inl Out_Of_Bounds
     else
     let DB_size = length coded - HASH_SIZE - 1;
         H = claimed_H hash coded
     in
     (case unmask_DB hash mgf coded key_bits of
       Inl e \<Rightarrow> Inl e
     | Inr DB \<Rightarrow>
     (case scan_DB DB 0 of
       None \<Rightarrow> Inr (False, out_salt_size)
     | Some salt_offset \<Rightarrow>
     if salt_offset = 0 then Inr (False, out_salt_size)
     else
     let salt_size = DB_size - salt_offset;
         padding = replicate 8 (0 :: byte);
         H2 = final_stdvec hash
                (update (update (update [] padding) message_hash)
                   (take salt_size (drop salt_offset DB)))
     in
     if length H < HASH_SIZE \<or> length H2 < HASH_SIZE then Inl Out_Of_Bounds
     else
     let ok = is_equal H H2 HASH_SIZE in
     Inr (ok, if ok \<and> out_salt_size \<noteq> None then Some salt_size else out_salt_size))))"

text \<open>Lines 70 to 97, the checks on the lengths and the trailer, and then the rest.\<close>

definition pss_verify ::
  "HashFunction \<Rightarrow> mask_generator \<Rightarrow> byte list \<Rightarrow> byte list \<Rightarrow> nat \<Rightarrow> nat option
     \<Rightarrow> error + (bool \<times> nat option)" where
  "pss_verify hash mgf pss_repr message_hash key_bits out_salt_size =
    (let HASH_SIZE = output_length hash;
         key_bytes = ceil_tobytes key_bits
     in
     if key_bits < 8 * HASH_SIZE + 9 then Inr (False, out_salt_size)
     else if length message_hash \<noteq> HASH_SIZE then Inr (False, out_salt_size)
     else if length pss_repr > key_bytes \<or> length pss_repr \<le> 1
     then Inr (False, out_salt_size)
     else
     case at pss_repr (length pss_repr - 1) of
       Inl e \<Rightarrow> Inl e
     | Inr trailer \<Rightarrow>
     if trailer \<noteq> 0xBC then Inr (False, out_salt_size)
     else
     (case pad_coded pss_repr key_bytes of
       Inl e \<Rightarrow> Inl e
     | Inr coded \<Rightarrow> verify_coded hash mgf coded message_hash key_bits out_salt_size))"

subsection \<open>The stateful wrappers\<close>

record PSSR =
  m_hash :: HashFunction
  m_salt_size :: nat
  m_required_salt_len :: bool

text \<open>
  The constructors: without a salt size the salt is as long as the digest and any
  discovered salt length is accepted; with one, that length is required.
\<close>

definition PSSR_new :: "HashFunction \<Rightarrow> PSSR" where
  "PSSR_new hash =
     \<lparr>m_hash = hash, m_salt_size = output_length hash, m_required_salt_len = False\<rparr>"

definition PSSR_new_salt :: "HashFunction \<Rightarrow> nat \<Rightarrow> PSSR" where
  "PSSR_new_salt hash salt_size =
     \<lparr>m_hash = hash, m_salt_size = salt_size, m_required_salt_len = True\<rparr>"

definition PSSR_verify ::
  "PSSR \<Rightarrow> mask_generator \<Rightarrow> byte list \<Rightarrow> byte list \<Rightarrow> nat \<Rightarrow> error + bool" where
  "PSSR_verify this mgf coded raw key_bits =
     (let salt_size = Some 0 in
      case pss_verify (m_hash this) mgf coded raw key_bits salt_size of
        Inl e \<Rightarrow> Inl e
      | Inr (ok, salt_size') \<Rightarrow>
          if m_required_salt_len this \<and> salt_size' \<noteq> Some (m_salt_size this)
          then Inr False
          else Inr ok)"

text \<open>
  \<^verbatim>\<open>PSS_Raw\<close> is a class of its own with the same three members and the message
  buffer; the record extends the one above only to share the member names.
\<close>

record PSS_Raw = PSSR +
  m_msg :: "byte list"

definition PSS_Raw_new :: "HashFunction \<Rightarrow> PSS_Raw" where
  "PSS_Raw_new hash =
     \<lparr>m_hash = hash, m_salt_size = output_length hash, m_required_salt_len = False,
      m_msg = []\<rparr>"

definition PSS_Raw_new_salt :: "HashFunction \<Rightarrow> nat \<Rightarrow> PSS_Raw" where
  "PSS_Raw_new_salt hash salt_size =
     \<lparr>m_hash = hash, m_salt_size = salt_size, m_required_salt_len = True, m_msg = []\<rparr>"

definition PSS_Raw_update :: "PSS_Raw \<Rightarrow> byte list \<Rightarrow> PSS_Raw" where
  "PSS_Raw_update this input = this\<lparr>m_msg := m_msg this @ input\<rparr>"

text \<open>
  \<^verbatim>\<open>raw_data\<close> swaps the buffer out before it checks the length: the object is
  returned with an empty buffer on both paths.
\<close>

definition PSS_Raw_raw_data :: "PSS_Raw \<Rightarrow> (error + byte list) \<times> PSS_Raw" where
  "PSS_Raw_raw_data this =
     (let ret = m_msg this;
          this' = this\<lparr>m_msg := []\<rparr>
      in
      if length ret \<noteq> output_length (m_hash this')
      then (Inl (Encoding_Error ''PSS_Raw Bad input length, did not match hash''), this')
      else (Inr ret, this'))"

definition PSS_Raw_verify ::
  "PSS_Raw \<Rightarrow> mask_generator \<Rightarrow> byte list \<Rightarrow> byte list \<Rightarrow> nat \<Rightarrow> error + bool" where
  "PSS_Raw_verify this mgf coded raw key_bits =
     (let salt_size = Some 0 in
      case pss_verify (m_hash this) mgf coded raw key_bits salt_size of
        Inl e \<Rightarrow> Inl e
      | Inr (ok, salt_size') \<Rightarrow>
          if m_required_salt_len this \<and> salt_size' \<noteq> Some (m_salt_size this)
          then Inr False
          else Inr ok)"

subsection \<open>Concrete collaborators\<close>

text \<open>
  Two concrete collaborators, for the instances below: the Adler-32 checksum of
  RFC 1950, a hash with four bytes of output, and the mask generator MGF1 of RFC 8017
  (appendix B.2.1) over a hash, the digests of the seed followed by a 32-bit big-endian
  counter, one after the other.
\<close>

fun adler32_sums :: "byte list \<Rightarrow> nat \<times> nat \<Rightarrow> nat \<times> nat" where
  "adler32_sums [] (a, b) = (a, b)"
| "adler32_sums (x # xs) (a, b) =
     adler32_sums xs ((a + unat x) mod 65521, (b + (a + unat x) mod 65521) mod 65521)"

definition adler32 :: "byte list \<Rightarrow> byte list" where
  "adler32 m =
     (case adler32_sums m (1, 0) of
        (a, b) \<Rightarrow> [of_nat (b div 256), of_nat b, of_nat (a div 256), of_nat a])"

definition Adler32 :: HashFunction where
  "Adler32 = \<lparr>output_length = 4, digest = adler32\<rparr>"

definition be32 :: "nat \<Rightarrow> byte list" where
  "be32 c = [of_nat (c div 2 ^ 24), of_nat (c div 2 ^ 16), of_nat (c div 2 ^ 8), of_nat c]"

definition mgf1 :: "HashFunction \<Rightarrow> mask_generator" where
  "mgf1 hash seed n = take n (concat (map (\<lambda>c. digest hash (seed @ be32 c)) [0..<n]))"

section \<open>Auxiliary facts\<close>

subsection \<open>The buffer operations and \<^verbatim>\<open>pss_encode\<close>\<close>

lemma stuffer_append_buf:
  "length pre = p \<Longrightarrow> stuffer_append \<lparr>buf = pre @ replicate (length bs + k) 0, pos = p\<rparr> bs =
    Inr \<lparr>buf = (pre @ bs) @ replicate k 0, pos = p + length bs\<rparr>"
  by (simp add: stuffer_append_def remaining_capacity_def replicate_add)

lemma and_first_Cons: "b \<noteq> [] \<Longrightarrow> and_first (b @ r) m = Inr (((hd b AND m) # tl b) @ r)"
  by (cases b) (simp_all add: and_first_def)

lemma mgf1_mask_prefix:
  assumes "mgf_ok mgf" and "length db = n"
  shows "mgf1_mask mgf seed (db @ rest) n = map2 (XOR) db (mgf seed n) @ rest"
  using assms by (simp add: mgf1_mask_def mgf_ok_def)

lemma pss_encode_form:
  assumes hash: "hash_ok hash" and mgf: "mgf_ok mgf"
    and msg: "length msg = output_length hash"
    and bits: "8 * output_length hash + 8 * length salt + 9 \<le> N"
  defines "H \<equiv> digest hash (replicate 8 0 @ msg @ salt)"
    and "db_len \<equiv> ceil_tobytes N - output_length hash - 1"
  defines "masked \<equiv> map2 (XOR) (replicate (db_len - 1 - length salt) 0 @ [1] @ salt) (mgf H db_len)"
  shows "pss_encode hash mgf msg salt N =
    Inr (((hd masked AND drop_bit (8 * ceil_tobytes N - N) 0xFF) # tl masked) @ H @ [0xBC])"
proof -
  let ?hs = "output_length hash"
  let ?S = "length salt"
  let ?n = "ceil_tobytes N"
  have lenH: "length H = ?hs"
    using hash by (simp add: H_def hash_ok_def)
  have n: "?hs + ?S + 2 \<le> ?n"
    using bits by (simp add: ceil_tobytes_def)
  define z where "z = ?n - (1 + ?S + length H + 1)"
  have zdb: "db_len - 1 - ?S = z" and db: "db_len = z + 1 + ?S"
    using n lenH by (simp_all add: z_def db_len_def)
  define k3 where "k3 = length H + 1"
  define k2 where "k2 = length salt + k3"
  define k1 where "k1 = length [1::byte] + k2"
  have nz: "?n = length (replicate z (0::byte)) + k1"
    using n lenH by (simp add: z_def k1_def k2_def k3_def)
  let ?DB = "replicate z 0 @ [1] @ salt"
  have lenDB: "length ?DB = db_len"
    by (simp add: db)
  have s1: "stuffer_append_fill (stuffer_of (replicate ?n 0)) 0 z =
      Inr \<lparr>buf = replicate z 0 @ replicate k1 0, pos = z\<rparr>"
    unfolding nz stuffer_append_fill_def stuffer_of_def
    using stuffer_append_buf [of "[]" 0 "replicate z 0" k1] by simp
  have s2: "stuffer_append \<lparr>buf = replicate z 0 @ replicate k1 0, pos = z\<rparr> [1] =
      Inr \<lparr>buf = (replicate z 0 @ [1]) @ replicate k2 0, pos = z + 1\<rparr>"
    unfolding k1_def
    using stuffer_append_buf [of "replicate z 0" z "[1]" k2] by simp
  have s3: "stuffer_append \<lparr>buf = (replicate z 0 @ [1]) @ replicate k2 0, pos = z + 1\<rparr> salt =
      Inr \<lparr>buf = ?DB @ replicate (length H + 1) 0, pos = db_len\<rparr>"
    unfolding k2_def
    using stuffer_append_buf [of "replicate z 0 @ [1]" "z + 1" salt k3]
    by (simp add: db k3_def)
  have m: "mgf1_mask mgf H (?DB @ replicate (length H + 1) 0) db_len =
      masked @ replicate (length H + 1) 0"
    unfolding masked_def zdb
    by (rule mgf1_mask_prefix [OF mgf lenDB])
  have lenm: "length masked = db_len"
    using mgf lenDB by (simp add: masked_def mgf_ok_def zdb)
  then have ne: "masked \<noteq> []"
    using db by auto
  define m0 where "m0 = (hd masked AND drop_bit (8 * ?n - N) 0xFF) # tl masked"
  have lenm0: "length m0 = db_len"
    using lenm ne by (cases masked) (simp_all add: m0_def)
  have a: "and_first (masked @ replicate (length H + 1) 0) (drop_bit (8 * ?n - N) 0xFF) =
      Inr (m0 @ replicate (length H + 1) 0)"
    unfolding m0_def by (rule and_first_Cons [OF ne])
  have s4: "stuffer_append \<lparr>buf = m0 @ replicate (length H + 1) 0, pos = db_len\<rparr> H =
      Inr \<lparr>buf = (m0 @ H) @ replicate 1 0, pos = db_len + length H\<rparr>"
    by (rule stuffer_append_buf [OF lenm0])
  have s5: "stuffer_append \<lparr>buf = (m0 @ H) @ replicate 1 0, pos = db_len + length H\<rparr> [0xBC] =
      Inr \<lparr>buf = (m0 @ H) @ [0xBC], pos = db_len + length H + 1\<rparr>"
    using stuffer_append_buf [of "m0 @ H" "db_len + length H" "[0xBC]" 0] lenm0
    by simp
  have f: "full \<lparr>buf = (m0 @ H) @ [0xBC], pos = db_len + length H + 1\<rparr>"
    using lenm0 by (simp add: full_def remaining_capacity_def)
  have cap: "remaining_capacity (stuffer_of (replicate ?n 0)) = ?n"
    by (simp add: remaining_capacity_def stuffer_of_def)
  have Hfin: "final_stdvec hash (update (update (update [] (replicate 8 0)) msg) salt) = H"
    by (simp add: final_stdvec_def update_def H_def)
  have c1: "\<not> length msg \<noteq> ?hs" and c2: "\<not> N < 8 * ?hs + 8 * ?S + 9"
    and c3: "\<not> ?n < 1 + ?S + length H + 1"
    using msg bits n lenH by simp_all
  show ?thesis
    unfolding pss_encode_def Let_def Hfin cap z_def [symmetric] db_len_def [symmetric]
    apply (simp only: c1 c2 c3 if_False s1 sum.case s2 s3 m a BufferStuffer.simps s4 s5 f if_True)
    apply (simp add: m0_def)
    done
qed

subsection \<open>Bytes and masks\<close>

lemma bit_length_le_iff: "bit_length n \<le> k \<longleftrightarrow> n < 2 ^ k"
proof (induction n arbitrary: k rule: bit_length.induct)
  case (1 n)
  show ?case
  proof (cases "n = 0")
    case True
    then show ?thesis by (simp add: bit_length.simps)
  next
    case False
    show ?thesis
    proof (cases k)
      case 0
      with False show ?thesis by (simp add: bit_length.simps)
    next
      case (Suc k')
      have "bit_length n \<le> Suc k' \<longleftrightarrow> bit_length (n div 2) \<le> k'"
        using False by (subst bit_length.simps) simp
      also have "\<dots> \<longleftrightarrow> n div 2 < 2 ^ k'"
        using "1.IH" [OF False] .
      also have "\<dots> \<longleftrightarrow> n < 2 ^ Suc k'"
        by (simp add: div_less_iff_less_mult mult.commute)
      finally show ?thesis using Suc by simp
    qed
  qed
qed

lemma unat_mask_less: "unat (x AND drop_bit t (0xFF :: byte)) < 2 ^ (8 - t)"
proof -
  have "unat (x AND drop_bit t (0xFF :: byte)) \<le> unat (drop_bit t (0xFF :: byte))"
    by (rule word_and_le1 [THEN word_le_nat_alt [THEN iffD1]])
  also have "\<dots> = 255 div 2 ^ t"
    by (simp only: unat_drop_bit_eq) (simp add: drop_bit_eq_div)
  also have "\<dots> < 2 ^ (8 - t)"
  proof (cases "t \<le> 8")
    case True
    have "(255::nat) < 2 ^ (8 - t) * 2 ^ t"
      using True by (simp add: power_add [symmetric])
    then show ?thesis
      by (rule less_mult_imp_div_less)
  next
    case False
    then have "(2::nat) ^ 8 < 2 ^ t"
      by (intro power_strict_increasing) simp_all
    then have "(255::nat) < 2 ^ t" by simp
    then have "(255::nat) div 2 ^ t = 0" by simp
    then show ?thesis by simp
  qed
  finally show ?thesis .
qed

lemma high_bit_masked: "high_bit (x AND drop_bit t (0xFF :: byte)) \<le> 8 - t"
  by (simp add: high_bit_def bit_length_le_iff unat_mask_less)

lemma remask: "(((a XOR m) AND k) XOR m) AND k = a AND (k :: byte)"
  by (auto simp add: bit_eq_iff bit_and_iff bit_xor_iff)

lemma one_and_mask:
  assumes "t \<le> 7"
  shows "(1 :: byte) AND drop_bit t 0xFF = 1"
proof -
  from assms consider "t = 0" | "t = 1" | "t = 2" | "t = 3" | "t = 4" | "t = 5" | "t = 6" | "t = 7"
    by linarith
  then show ?thesis
    by cases simp_all
qed

lemma top_bits_le: "top_bits_of N \<le> 7" "8 * ceil_tobytes N - N = top_bits_of N"
  by (simp_all add: top_bits_of_def ceil_tobytes_def)

lemma scan_DB_zeros: "scan_DB (replicate z 0 @ 1 # salt) j = Some (j + z + 1)"
  by (induction z arbitrary: j) simp_all

lemma map2_xor_twice:
  "length xs = length ms \<Longrightarrow> map2 (XOR) (map2 (XOR) xs ms) ms = (xs :: byte list)"
  by (induction xs ms rule: list_induct2) (simp_all add: xor.assoc)

subsection \<open>\<^verbatim>\<open>pss_verify\<close>\<close>

lemma pad_coded_eq:
  "length r \<le> kb \<Longrightarrow> pad_coded r kb = Inr (replicate (kb - length r) 0 @ r)"
proof (cases "length r < kb")
  case True
  define p where "p = kb - length r"
  have kb: "kb = length (replicate p (0::byte)) + (length r + 0)"
    using True by (simp add: p_def)
  have s1: "stuffer_append_fill (stuffer_of (replicate kb 0)) 0 p =
      Inr \<lparr>buf = replicate p 0 @ replicate (length r + 0) 0, pos = p\<rparr>"
    unfolding stuffer_append_fill_def stuffer_of_def
    by (subst kb) (use stuffer_append_buf [of "[]" 0 "replicate p 0" "length r + 0"] in simp)
  have s2: "stuffer_append \<lparr>buf = replicate p 0 @ replicate (length r + 0) 0, pos = p\<rparr> r =
      Inr \<lparr>buf = (replicate p 0 @ r) @ replicate 0 0, pos = p + length r\<rparr>"
    by (rule stuffer_append_buf) simp
  show ?thesis
    unfolding pad_coded_def p_def [symmetric]
    using True by (simp only: if_True s1 s2 sum.case BufferStuffer.simps) simp
next
  case False
  assume "length r \<le> kb"
  with False show ?thesis by (simp add: pad_coded_def)
qed

lemma unmask_DB_eq:
  fixes K :: nat
  assumes mgf: "mgf_ok mgf" and len: "output_length hash + 1 < length coded"
  defines "n \<equiv> length coded - output_length hash - 1"
  defines "u \<equiv> map2 (XOR) (take n coded) (mgf (claimed_H hash coded) n)"
  shows "unmask_DB hash mgf coded K =
    Inr ((hd u AND drop_bit (top_bits_of K) 0xFF) # tl u)"
    and "length u = n" and "u \<noteq> []"
proof -
  have n: "0 < n" "n \<le> length coded"
    using len by (simp_all add: n_def)
  show lenu: "length u = n"
    using mgf n by (simp add: u_def mgf_ok_def)
  then show ne: "u \<noteq> []"
    using n by auto
  define m0 where "m0 = (hd u AND drop_bit (top_bits_of K) 0xFF) # tl u"
  have "mgf1_mask mgf (claimed_H hash coded) coded n = u @ drop n coded"
    by (simp add: mgf1_mask_def u_def)
  then have a: "and_first (mgf1_mask mgf (claimed_H hash coded) coded n) (drop_bit (top_bits_of K) 0xFF)
      = Inr (m0 @ drop n coded)"
    using and_first_Cons [OF ne] by (simp add: m0_def)
  have "length m0 = n"
    using lenu ne by (cases u) (simp_all add: m0_def)
  then have "take n (m0 @ drop n coded) = m0"
    by simp
  then show "unmask_DB hash mgf coded K =
    Inr ((hd u AND drop_bit (top_bits_of K) 0xFF) # tl u)"
    unfolding unmask_DB_def Let_def n_def [symmetric] m0_def [symmetric]
    by (simp only: a sum.case)
qed

lemma verify_coded_eq:
  fixes K :: nat
  assumes hash: "hash_ok hash" and mgf: "mgf_ok mgf"
    and len: "output_length hash + 1 < length coded"
    and d: "length d = output_length hash"
  defines "n \<equiv> length coded - output_length hash - 1"
  defines "u \<equiv> map2 (XOR) (take n coded) (mgf (claimed_H hash coded) n)"
  defines "DB \<equiv> (hd u AND drop_bit (top_bits_of K) 0xFF) # tl u"
  shows "verify_coded hash mgf coded d K out =
     (if top_bits_of K > 8 - high_bit (hd coded) then Inr (False, out)
      else case scan_DB DB 0 of
        None \<Rightarrow> Inr (False, out)
      | Some off \<Rightarrow>
          if off = 0 then Inr (False, out)
          else if claimed_H hash coded = digest hash (replicate 8 0 @ d @ drop off DB)
          then Inr (True, if out \<noteq> None then Some (n - off) else out)
          else Inr (False, out))"
proof -
  let ?hs = "output_length hash"
  have at0: "at coded 0 = Inr (hd coded)"
    using len by (cases coded) (simp_all add: at_def)
  have un: "unmask_DB hash mgf coded K = Inr DB" and lenu: "length u = n" and ne: "u \<noteq> []"
    using unmask_DB_eq [OF mgf len] by (simp_all add: DB_def u_def n_def)
  have lenDB: "length DB = n"
    using lenu ne by (cases u) (simp_all add: DB_def)
  have lenH: "length (claimed_H hash coded) = ?hs"
    using len by (simp add: claimed_H_def)
  have lenH2: "length (digest hash m) = ?hs" for m
    using hash by (simp add: hash_ok_def)
  have c: "\<not> length coded < ?hs + 1"
    using len by simp
  have tk: "take (n - off) (drop off DB) = drop off DB" for off
    by (simp add: lenDB)
  have tkH: "take ?hs (claimed_H hash coded) = claimed_H hash coded"
    and tkH2: "take ?hs (digest hash m) = digest hash m" for m
    using lenH lenH2 by simp_all
  show ?thesis
    unfolding verify_coded_def Let_def n_def [symmetric]
    by (simp only: at0 sum.case c if_False un final_stdvec_def update_def is_equal_def
          lenH lenH2 tk tkH tkH2)
       (simp split: option.splits)
qed

lemma pss_verify_guards:
  assumes "8 * output_length hash + 9 \<le> K" and "length d = output_length hash"
    and "1 < length r" and "length r \<le> ceil_tobytes K" and "last r = 0xBC"
  shows "pss_verify hash mgf r d K out =
    verify_coded hash mgf (replicate (ceil_tobytes K - length r) 0 @ r) d K out"
proof -
  have "r \<noteq> []" using assms(3) by auto
  then have "at r (length r - 1) = Inr 0xBC"
    using assms(5) by (simp add: at_def last_conv_nth)
  then show ?thesis
    unfolding pss_verify_def Let_def
    using assms(1-4) by (simp add: pad_coded_eq)
qed

lemma unmask_masked:
  fixes k :: byte
  assumes len: "length DB0 = length mk" and ne: "DB0 \<noteq> []" and hd: "hd DB0 AND k = hd DB0"
  defines "masked \<equiv> map2 (XOR) DB0 mk"
  defines "m0 \<equiv> (hd masked AND k) # tl masked"
  defines "u \<equiv> map2 (XOR) m0 mk"
  shows "(hd u AND k) # tl u = DB0"
proof -
  obtain a as where DB0: "DB0 = a # as"
    using ne by (cases DB0) auto
  obtain b bs where mk: "mk = b # bs"
    using len ne by (cases mk) auto
  have l: "length as = length bs"
    using len by (simp add: DB0 mk)
  have "a AND k = a"
    using hd by (simp add: DB0)
  then have "(((a XOR b) AND k) XOR b) AND k = a"
    by (simp add: remask)
  then show ?thesis
    by (simp add: u_def m0_def masked_def DB0 mk map2_xor_twice [OF l])
qed

lemma verify_encoded:
  fixes N :: nat
  assumes hash: "hash_ok hash" and mgf: "mgf_ok mgf"
    and msg: "length msg = output_length hash"
    and d': "length d' = output_length hash"
    and bits: "8 * output_length hash + 8 * length salt + 9 \<le> N"
    and enc: "pss_encode hash mgf msg salt N = Inr EM"
  shows "pss_verify hash mgf EM d' N out =
    (if digest hash (replicate 8 0 @ d' @ salt) = digest hash (replicate 8 0 @ msg @ salt)
     then Inr (True, if out \<noteq> None then Some (length salt) else out)
     else Inr (False, out))"
proof -
  let ?hs = "output_length hash"
  let ?S = "length salt"
  let ?n = "ceil_tobytes N"
  define H where "H = digest hash (replicate 8 0 @ msg @ salt)"
  define db_len where "db_len = ?n - ?hs - 1"
  define z where "z = db_len - 1 - ?S"
  define k :: byte where "k = drop_bit (top_bits_of N) 0xFF"
  define DB0 :: "byte list" where "DB0 = replicate z 0 @ [1] @ salt"
  define mk where "mk = mgf H db_len"
  define masked where "masked = map2 (XOR) DB0 mk"
  define m0 where "m0 = (hd masked AND k) # tl masked"
  have EM: "EM = m0 @ H @ [0xBC]"
    using pss_encode_form [OF hash mgf msg bits] enc
    unfolding H_def [symmetric] db_len_def [symmetric] z_def [symmetric] top_bits_le(2)
      k_def [symmetric] DB0_def [symmetric] mk_def [symmetric] masked_def [symmetric]
      m0_def [symmetric]
    by simp
  have lenH: "length H = ?hs"
    using hash by (simp add: H_def hash_ok_def)
  have n: "?hs + ?S + 2 \<le> ?n"
    using bits by (simp add: ceil_tobytes_def)
  have db: "db_len = z + 1 + ?S"
    using n by (simp add: z_def db_len_def)
  have lenDB0: "length DB0 = db_len"
    by (simp add: DB0_def db)
  have lenmk: "length mk = db_len"
    using mgf by (simp add: mk_def mgf_ok_def)
  have ne: "DB0 \<noteq> []"
    by (simp add: DB0_def)
  have lenmasked: "length masked = db_len"
    by (simp add: masked_def lenDB0 lenmk)
  then have masked_ne: "masked \<noteq> []"
    using db by auto
  have lenm0: "length m0 = db_len"
    using lenmasked masked_ne by (cases masked) (simp_all add: m0_def)
  have lenEM: "length EM = ?n"
    using n by (simp add: EM lenm0 lenH db_len_def)
  have l1: "1 < length EM" and l2: "length EM \<le> ?n" and l3: "8 * ?hs + 9 \<le> N"
    and lastEM: "last EM = 0xBC"
    using n lenEM bits by (simp_all add: EM)
  have g: "pss_verify hash mgf EM d' N out = verify_coded hash mgf EM d' N out"
    using pss_verify_guards [OF l3 d' l1 l2 lastEM, of mgf out]
    by (simp add: lenEM)
  have len: "?hs + 1 < length EM"
    using n lenEM by simp
  have dbsz: "length EM - ?hs - 1 = db_len"
    by (simp add: lenEM db_len_def)
  have cH: "claimed_H hash EM = H"
    unfolding claimed_H_def dbsz by (simp add: EM lenm0 lenH)
  have tk: "take db_len EM = m0"
    by (simp add: EM lenm0)
  have hdEM: "hd EM = hd masked AND k"
    by (simp add: EM m0_def)
  have hb: "\<not> top_bits_of N > 8 - high_bit (hd EM)"
    using high_bit_masked [of "hd masked" "top_bits_of N"] top_bits_le(1) [of N]
    by (simp add: hdEM k_def)
  have hd0: "hd DB0 AND k = hd DB0"
    using one_and_mask [OF top_bits_le(1), of N]
    by (cases z) (simp_all add: DB0_def k_def)
  have DB: "(hd (map2 (XOR) m0 mk) AND k) # tl (map2 (XOR) m0 mk) = DB0"
    unfolding m0_def masked_def
    by (rule unmask_masked) (simp_all add: lenDB0 lenmk ne hd0)
  have scan: "scan_DB DB0 0 = Some (z + 1)"
    using scan_DB_zeros [of z salt 0] by (simp add: DB0_def)
  have salt: "drop (Suc z) DB0 = salt" and sz: "db_len - Suc z = ?S"
    by (simp_all add: DB0_def db)
  show ?thesis
    unfolding g verify_coded_eq [OF hash mgf len d'] dbsz cH tk mk_def [symmetric]
      k_def [symmetric] DB
    using hb by (auto simp add: scan salt sz H_def)
qed

subsection \<open>The scan, the early checks and the concrete collaborators\<close>

lemma replicate_8_zero: "replicate 8 (0::byte) = [0,0,0,0,0,0,0,0]"
  by (simp add: numeral_eq_Suc)

lemma hash_ok_Adler32: "hash_ok Adler32"
  by (simp add: hash_ok_def Adler32_def adler32_def split: prod.splits)

lemma length_concat_const:
  "(\<And>x. length (f x) = k) \<Longrightarrow> length (concat (map f xs)) = k * length xs"
  by (induction xs) simp_all

lemma mgf_ok_mgf1:
  assumes "hash_ok hash" and "0 < output_length hash"
  shows "mgf_ok (mgf1 hash)"
proof -
  have "n \<le> length (concat (map (\<lambda>c. digest hash (seed @ be32 c)) [0..<n]))" for seed n
    using assms length_concat_const [of "\<lambda>c. digest hash (seed @ be32 c)" "output_length hash" "[0..<n]"]
    by (simp add: hash_ok_def)
  then show ?thesis
    by (simp add: mgf_ok_def mgf1_def)
qed

lemma mgf_ok_Adler32: "mgf_ok (mgf1 Adler32)"
  by (rule mgf_ok_mgf1 [OF hash_ok_Adler32]) (simp add: Adler32_def)

lemma scan_DB_bad_byte:
  "j < length DB \<Longrightarrow> DB ! j \<noteq> 0 \<Longrightarrow> DB ! j \<noteq> 1 \<Longrightarrow> \<forall>i<j. DB ! i \<noteq> 1
     \<Longrightarrow> scan_DB DB k = None"
proof (induction DB arbitrary: j k)
  case Nil
  then show ?case by simp
next
  case (Cons b bs)
  show ?case
  proof (cases j)
    case 0
    with Cons.prems show ?thesis by simp
  next
    case (Suc j')
    with Cons.prems have b: "b \<noteq> 1" by auto
    have "scan_DB bs (Suc k) = None"
      using Cons.prems Suc by (intro Cons.IH [of j']) auto
    with b show ?thesis by simp
  qed
qed

lemma scan_DB_no_marker:
  "1 \<notin> set DB \<Longrightarrow> scan_DB DB k = None \<or> scan_DB DB k = Some 0"
  by (induction DB arbitrary: k) auto

lemma pss_verify_early:
  assumes "K < 8 * output_length hash + 9 \<or> length d \<noteq> output_length hash
    \<or> ceil_tobytes K < length r \<or> length r \<le> 1 \<or> last r \<noteq> 0xBC"
  shows "pss_verify hash mgf r d K out = Inr (False, out)"
proof (cases "1 < length r")
  case True
  then have "r \<noteq> []" by auto
  then have "at r (length r - 1) = Inr (last r)"
    by (simp add: at_def last_conv_nth)
  with assms show ?thesis
    unfolding pss_verify_def Let_def by auto
next
  case False
  then show ?thesis
    unfolding pss_verify_def Let_def by simp
qed

lemma bit_mask_byte: "bit (x AND drop_bit t (0xFF :: byte)) i \<longleftrightarrow> bit x i \<and> t + i < 8"
proof -
  have "(0xFF :: byte) = - 1" by simp
  then have "bit (0xFF :: byte) n \<longleftrightarrow> n < 8" for n
    by (simp only: bit_minus_1_iff) (simp add: possible_bit_word)
  then show ?thesis
    by (simp add: bit_and_iff bit_drop_bit_eq ac_simps)
qed

lemma encode_shape:
  assumes "hash_ok hash" and "mgf_ok mgf"
    and "length d = output_length hash"
    and "8 * output_length hash + 8 * length s + 9 \<le> N"
  shows "\<exists>DB. pss_encode hash mgf d s N = Inr (DB @ digest hash (replicate 8 0 @ d @ s) @ [0xBC])
    \<and> length DB = ceil_tobytes N - output_length hash - 1
    \<and> DB \<noteq> []
    \<and> (\<forall>i. bit (hd DB) i \<longrightarrow> 8 * ceil_tobytes N - N + i < 8)"
proof -
  let ?hs = "output_length hash"
  let ?n = "ceil_tobytes N"
  define masked where "masked =
    map2 (XOR) (replicate (?n - ?hs - 1 - 1 - length s) 0 @ [1] @ s)
      (mgf (digest hash (replicate 8 0 @ d @ s)) (?n - ?hs - 1))"
  define m0 where "m0 = (hd masked AND drop_bit (8 * ?n - N) 0xFF) # tl masked"
  have enc: "pss_encode hash mgf d s N = Inr (m0 @ digest hash (replicate 8 0 @ d @ s) @ [0xBC])"
    using pss_encode_form [OF assms] by (simp add: m0_def masked_def)
  have n: "?hs + length s + 2 \<le> ?n"
    using assms(4) by (simp add: ceil_tobytes_def)
  have "length masked = ?n - ?hs - 1"
    using assms(2) n by (simp add: masked_def mgf_ok_def)
  then have lenm0: "length m0 = ?n - ?hs - 1"
    using n by (cases masked) (simp_all add: m0_def)
  have top: "\<forall>i. bit (hd m0) i \<longrightarrow> 8 * ?n - N + i < 8"
    by (simp add: m0_def bit_mask_byte)
  from enc lenm0 top show ?thesis
    unfolding m0_def by blast
qed

subsection \<open>Rejections of \<^verbatim>\<open>pss_verify\<close>\<close>

lemma verify_coded_unmasked:
  assumes hash: "hash_ok hash" and mgf: "mgf_ok mgf"
    and len: "output_length hash + 1 < length coded"
    and d: "length d = output_length hash"
    and un: "unmask_DB hash mgf coded K = Inr DB"
  shows "verify_coded hash mgf coded d K out =
     (if top_bits_of K > 8 - high_bit (hd coded) then Inr (False, out)
      else case scan_DB DB 0 of
        None \<Rightarrow> Inr (False, out)
      | Some off \<Rightarrow>
          if off = 0 then Inr (False, out)
          else if claimed_H hash coded = digest hash (replicate 8 0 @ d @ drop off DB)
          then Inr (True,
                 if out \<noteq> None then Some (length coded - output_length hash - 1 - off) else out)
          else Inr (False, out))"
proof -
  note e = un [unfolded unmask_DB_eq(1) [OF mgf len]]
  show ?thesis
    unfolding verify_coded_eq [OF hash mgf len d] e [unfolded sum.inject] ..
qed

lemma unmask_DB_total:
  assumes "mgf_ok mgf" and "output_length hash + 1 < length coded"
  shows "\<exists>DB. unmask_DB hash mgf coded K = Inr DB"
  using unmask_DB_eq(1) [OF assms] by blast

lemma verify_coded_total:
  assumes hash: "hash_ok hash" and mgf: "mgf_ok mgf"
    and len: "output_length hash + 1 < length coded"
    and d: "length d = output_length hash"
  shows "\<exists>ok out'. verify_coded hash mgf coded d K out = Inr (ok, out')"
proof -
  obtain DB where DB: "unmask_DB hash mgf coded K = Inr DB"
    using unmask_DB_total [OF mgf len] by blast
  show ?thesis
    unfolding verify_coded_unmasked [OF assms DB]
    by (cases "scan_DB DB 0") auto
qed

lemma verify_coded_rejects:
  assumes hash: "hash_ok hash" and mgf: "mgf_ok mgf"
    and len: "output_length hash + 1 < length coded"
    and d: "length d = output_length hash"
    and bad: "8 - high_bit (coded ! 0) < top_bits_of K
      \<or> (\<exists>DB. unmask_DB hash mgf coded K = Inr DB
            \<and> ((\<exists>j<length DB. DB ! j \<noteq> 0 \<and> DB ! j \<noteq> 1 \<and> (\<forall>i<j. DB ! i \<noteq> 1))
               \<or> 1 \<notin> set DB))"
  shows "verify_coded hash mgf coded d K out = Inr (False, out)"
proof -
  have hd: "hd coded = coded ! 0"
    using len by (cases coded) simp_all
  obtain DB where DB: "unmask_DB hash mgf coded K = Inr DB"
    using unmask_DB_total [OF mgf len] by blast
  from bad DB consider (top) "8 - high_bit (coded ! 0) < top_bits_of K"
    | (byte) "\<exists>j<length DB. DB ! j \<noteq> 0 \<and> DB ! j \<noteq> 1 \<and> (\<forall>i<j. DB ! i \<noteq> 1)"
    | (marker) "1 \<notin> set DB"
    by auto
  then show ?thesis
  proof cases
    case top
    then show ?thesis
      unfolding verify_coded_unmasked [OF hash mgf len d DB] by (simp add: hd)
  next
    case byte
    then have "scan_DB DB 0 = None"
      using scan_DB_bad_byte by blast
    then show ?thesis
      unfolding verify_coded_unmasked [OF hash mgf len d DB] by simp
  next
    case marker
    then have "scan_DB DB 0 = None \<or> scan_DB DB 0 = Some 0"
      by (rule scan_DB_no_marker)
    then show ?thesis
      unfolding verify_coded_unmasked [OF hash mgf len d DB] by auto
  qed
qed

subsection \<open>The codec on concrete inputs\<close>

lemma upt5: "[0..<5] = [0, 1, 2, 3, 4]"
  by (simp add: upt_rec)

lemma be32_small: "be32 0 = [0, 0, 0, 0]" "be32 (Suc 0) = [0, 0, 0, 1]" "be32 2 = [0, 0, 0, 2]"
  "be32 3 = [0, 0, 0, 3]" "be32 4 = [0, 0, 0, 4]"
  by (simp_all add: be32_def)

lemma adler32_blocks:
  "adler32 [7, 154, 3, 25, 0, 0, 0, 0] = [5, 5, 0, 190]"
  "adler32 [7, 154, 3, 25, 0, 0, 0, 1] = [5, 6, 0, 191]"
  by (simp_all add: adler32_def)

lemma mgf1_vector: "mgf1 Adler32 [7, 154, 3, 25] 5 = [5, 5, 0, 190, 5]"
  by (simp add: mgf1_def Adler32_def upt5 be32_small adler32_blocks hash_ok_Adler32 [unfolded hash_ok_def Adler32_def, simplified])

lemma adler32_digests:
  "adler32 [0, 0, 0, 0, 0, 0, 0, 0, 1, 2, 3, 4, 0xAA, 0xBB, 0xCC, 0xDD] = [7, 154, 3, 25]"
  "adler32 [0, 0, 0, 0, 0, 0, 0, 0, 2, 0, 4, 4, 0xAA, 0xBB, 0xCC, 0xDD] = [7, 154, 3, 25]"
  "adler32 [0, 0, 0, 0, 0, 0, 0, 0, 1, 2, 3, 5, 0xAA, 0xBB, 0xCC, 0xDD] = [7, 159, 3, 26]"
  by (simp_all add: adler32_def)

lemma encode_vector:
  "pss_encode Adler32 (mgf1 Adler32) [1, 2, 3, 4] [0xAA, 0xBB, 0xCC, 0xDD] 80
     = Inr [4, 175, 187, 114, 216, 7, 154, 3, 25, 188]"
proof -
  have l: "length [1, 2, 3, 4 :: byte] = output_length Adler32"
    and b: "8 * output_length Adler32 + 8 * length [0xAA, 0xBB, 0xCC, 0xDD :: byte] + 9 \<le> (80 :: nat)"
    by (simp_all add: Adler32_def)
  have d: "digest Adler32 = adler32" and o: "output_length Adler32 = 4"
    by (simp_all add: Adler32_def)
  show ?thesis
    unfolding pss_encode_form [OF hash_ok_Adler32 mgf_ok_Adler32 l b] d o
    by (simp add: ceil_tobytes_def replicate_8_zero adler32_digests mgf1_vector)
qed

lemma vector_facts:
  "length [1, 2, 3, 4 :: byte] = output_length Adler32"
  "length [2, 0, 4, 4 :: byte] = output_length Adler32"
  "length [1, 2, 3, 5 :: byte] = output_length Adler32"
  "8 * output_length Adler32 + 8 * length [0xAA, 0xBB, 0xCC, 0xDD :: byte] + 9 \<le> (80 :: nat)"
  "digest Adler32 = adler32"
  by (simp_all add: Adler32_def)

lemma upt2: "[0..<2] = [0, 1]"
  by (simp add: upt_rec)

lemma short_vector_facts:
  "adler32 [0, 0, 0, 0, 0, 0, 0, 0, 0, 0, 0, 1] = [0, 13, 0, 2]"
  "adler32 [0, 13, 0, 2, 0, 0, 0, 0] = [0, 109, 0, 16]"
  "adler32 [0, 13, 0, 2, 0, 0, 0, 1] = [0, 110, 0, 17]"
  by (simp_all add: adler32_def)

lemma mgf1_short: "mgf1 Adler32 [0, 13, 0, 2] 2 = [0, 109]"
  by (simp add: mgf1_def Adler32_def upt2 be32_small short_vector_facts)

lemma encode_short_vector:
  "pss_encode Adler32 (mgf1 Adler32) [0, 0, 0, 1] [] 56 = Inr [0, 108, 0, 13, 0, 2, 188]"
proof -
  have l: "length [0, 0, 0, 1 :: byte] = output_length Adler32"
    and b: "8 * output_length Adler32 + 8 * length ([] :: byte list) + 9 \<le> (56 :: nat)"
    by (simp_all add: Adler32_def)
  have d: "digest Adler32 = adler32" and o: "output_length Adler32 = 4"
    by (simp_all add: Adler32_def)
  show ?thesis
    unfolding pss_encode_form [OF hash_ok_Adler32 mgf_ok_Adler32 l b] d o
    by (simp add: ceil_tobytes_def replicate_8_zero short_vector_facts mgf1_short)
qed

section \<open>The claims\<close>

text \<open>
  Claim C1 (round trip). For a hash and a mask generator that keep their contracts,
  every digest \<open>d\<close> of the hash's output length, every salt \<open>s\<close> and every bit count
  \<open>N\<close> with \<open>8 * H + 8 * S + 9 \<le> N\<close>: \<^verbatim>\<open>pss_encode\<close> succeeds, and \<^verbatim>\<open>pss_verify\<close>
  of its result against \<open>d\<close> at \<open>key_bits = N\<close> returns \<^verbatim>\<open>true\<close> and stores the salt
  length \<open>S\<close> through \<^verbatim>\<open>out_salt_size\<close> (and returns \<^verbatim>\<open>true\<close> for a null pointer
  as well).
\<close>

theorem pss_roundtrip:
  assumes "hash_ok hash" and "mgf_ok mgf"
    and "length d = output_length hash"
    and "8 * output_length hash + 8 * length s + 9 \<le> N"
  shows "\<exists>EM. pss_encode hash mgf d s N = Inr EM
    \<and> pss_verify hash mgf EM d N None = Inr (True, None)
    \<and> (\<forall>v. pss_verify hash mgf EM d N (Some v) = Inr (True, Some (length s)))"
proof -
  obtain EM where enc: "pss_encode hash mgf d s N = Inr EM"
    using pss_encode_form [OF assms] by blast
  show ?thesis
    using verify_encoded [OF assms(1-3) assms(3) assms(4) enc] enc by simp
qed

theorem pss_roundtrip_witness:
  "hash_ok Adler32 \<and> mgf_ok (mgf1 Adler32)
   \<and> length [1, 2, 3, 4 :: byte] = output_length Adler32
   \<and> 8 * output_length Adler32 + 8 * length [0xAA, 0xBB, 0xCC, 0xDD :: byte] + 9 \<le> (80 :: nat)
   \<and> (\<exists>EM. pss_encode Adler32 (mgf1 Adler32) [1, 2, 3, 4] [0xAA, 0xBB, 0xCC, 0xDD] 80 = Inr EM
      \<and> pss_verify Adler32 (mgf1 Adler32) EM [1, 2, 3, 4] 80 None = Inr (True, None)
      \<and> (\<forall>v. pss_verify Adler32 (mgf1 Adler32) EM [1, 2, 3, 4] 80 (Some v)
             = Inr (True, Some (length [0xAA, 0xBB, 0xCC, 0xDD :: byte]))))"
proof -
  have l: "length [1, 2, 3, 4 :: byte] = output_length Adler32"
    and b: "8 * output_length Adler32 + 8 * length [0xAA, 0xBB, 0xCC, 0xDD :: byte] + 9 \<le> (80 :: nat)"
    by (simp_all add: Adler32_def)
  show ?thesis
    using pss_roundtrip [OF hash_ok_Adler32 mgf_ok_Adler32 l b] hash_ok_Adler32 mgf_ok_Adler32 l b
    by blast
qed

text \<open>
  Claim C2 (verification never raises). For a hash and a mask generator that keep
  their contracts, \<^verbatim>\<open>pss_verify\<close> returns a boolean on every input: no out-of-range
  access and no exception is reachable. It returns \<^verbatim>\<open>false\<close>, and leaves the salt
  size location alone, whenever one of the rejection conditions holds: the key is
  shorter than \<open>8 * H + 9\<close> bits, the digest has not \<open>H\<close> bytes, the representation is
  longer than the key or has at most one byte, its last byte is not \<open>0xBC\<close>, the first
  byte of the padded copy has more bits than the key leaves to it, the unmasked data
  block has a byte other than \<open>0x00\<close> and \<open>0x01\<close> before the first \<open>0x01\<close>, or it has no
  \<open>0x01\<close> at all.
\<close>

theorem pss_verify_never_raises:
  assumes hash: "hash_ok hash" and mgf: "mgf_ok mgf"
  shows "(\<exists>ok out'. pss_verify hash mgf EM d K out = Inr (ok, out'))
    \<and> (K < 8 * output_length hash + 9
        \<or> length d \<noteq> output_length hash
        \<or> ceil_tobytes K < length EM
        \<or> length EM \<le> 1
        \<or> last EM \<noteq> 0xBC
        \<or> (\<exists>coded. pad_coded EM (ceil_tobytes K) = Inr coded
              \<and> 8 - high_bit (coded ! 0) < top_bits_of K)
        \<or> (\<exists>coded DB. pad_coded EM (ceil_tobytes K) = Inr coded
              \<and> unmask_DB hash mgf coded K = Inr DB
              \<and> ((\<exists>j<length DB. DB ! j \<noteq> 0 \<and> DB ! j \<noteq> 1 \<and> (\<forall>i<j. DB ! i \<noteq> 1))
                 \<or> 1 \<notin> set DB))
       \<longrightarrow> pss_verify hash mgf EM d K out = Inr (False, out))"
proof (cases "K < 8 * output_length hash + 9 \<or> length d \<noteq> output_length hash
    \<or> ceil_tobytes K < length EM \<or> length EM \<le> 1 \<or> last EM \<noteq> 0xBC")
  case True
  then have "pss_verify hash mgf EM d K out = Inr (False, out)"
    by (rule pss_verify_early)
  then show ?thesis by blast
next
  case False
  then have K: "8 * output_length hash + 9 \<le> K" and d: "length d = output_length hash"
    and l1: "1 < length EM" and l2: "length EM \<le> ceil_tobytes K" and l3: "last EM = 0xBC"
    by simp_all
  let ?coded = "replicate (ceil_tobytes K - length EM) 0 @ EM"
  have pad: "pad_coded EM (ceil_tobytes K) = Inr ?coded"
    using l2 by (rule pad_coded_eq)
  have v: "pss_verify hash mgf EM d K out = verify_coded hash mgf ?coded d K out"
    using K d l1 l2 l3 by (rule pss_verify_guards)
  have len: "output_length hash + 1 < length ?coded"
    using K l2 by (simp add: ceil_tobytes_def)
  have total: "\<exists>ok out'. pss_verify hash mgf EM d K out = Inr (ok, out')"
    unfolding v using hash mgf len d by (rule verify_coded_total)
  have rej: "pss_verify hash mgf EM d K out = Inr (False, out)"
    if "8 - high_bit (?coded ! 0) < top_bits_of K
      \<or> (\<exists>DB. unmask_DB hash mgf ?coded K = Inr DB
            \<and> ((\<exists>j<length DB. DB ! j \<noteq> 0 \<and> DB ! j \<noteq> 1 \<and> (\<forall>i<j. DB ! i \<noteq> 1))
               \<or> 1 \<notin> set DB))"
    unfolding v using hash mgf len d that by (rule verify_coded_rejects)
  show ?thesis
  proof (intro conjI impI)
    show "\<exists>ok out'. pss_verify hash mgf EM d K out = Inr (ok, out')"
      by (rule total)
  next
    assume "K < 8 * output_length hash + 9
        \<or> length d \<noteq> output_length hash
        \<or> ceil_tobytes K < length EM
        \<or> length EM \<le> 1
        \<or> last EM \<noteq> 0xBC
        \<or> (\<exists>coded. pad_coded EM (ceil_tobytes K) = Inr coded
              \<and> 8 - high_bit (coded ! 0) < top_bits_of K)
        \<or> (\<exists>coded DB. pad_coded EM (ceil_tobytes K) = Inr coded
              \<and> unmask_DB hash mgf coded K = Inr DB
              \<and> ((\<exists>j<length DB. DB ! j \<noteq> 0 \<and> DB ! j \<noteq> 1 \<and> (\<forall>i<j. DB ! i \<noteq> 1))
                 \<or> 1 \<notin> set DB))"
    with False have "8 - high_bit (?coded ! 0) < top_bits_of K
      \<or> (\<exists>DB. unmask_DB hash mgf ?coded K = Inr DB
            \<and> ((\<exists>j<length DB. DB ! j \<noteq> 0 \<and> DB ! j \<noteq> 1 \<and> (\<forall>i<j. DB ! i \<noteq> 1))
               \<or> 1 \<notin> set DB))"
      unfolding pad by blast
    then show "pss_verify hash mgf EM d K out = Inr (False, out)"
      by (rule rej)
  qed
qed

theorem pss_verify_never_raises_witness:
  "hash_ok Adler32 \<and> mgf_ok (mgf1 Adler32)
   \<and> pad_coded [0xFF, 0, 0, 0, 0, 0, 0, 0, 0, 0xBC] (ceil_tobytes 73)
       = Inr [0xFF, 0, 0, 0, 0, 0, 0, 0, 0, 0xBC]
   \<and> 8 - high_bit ([0xFF, 0, 0, 0, 0, 0, 0, 0, 0, 0xBC] ! 0) < top_bits_of 73
   \<and> pss_verify Adler32 (mgf1 Adler32) [0xFF, 0, 0, 0, 0, 0, 0, 0, 0, 0xBC]
       [1, 2, 3, 4] 73 (Some 7) = Inr (False, Some 7)"
proof -
  have p: "pad_coded [0xFF, 0, 0, 0, 0, 0, 0, 0, 0, 0xBC] (ceil_tobytes 73)
       = Inr [0xFF, 0, 0, 0, 0, 0, 0, 0, 0, 0xBC]"
    by (simp add: pad_coded_def ceil_tobytes_def)
  have "\<not> bit_length (unat (0xFF :: byte)) \<le> 1"
    unfolding bit_length_le_iff by simp
  then have t: "8 - high_bit ([0xFF, 0, 0, 0, 0, 0, 0, 0, 0, 0xBC] ! 0) < top_bits_of 73"
    by (simp add: high_bit_def top_bits_of_def)
  show ?thesis
    using pss_verify_never_raises [OF hash_ok_Adler32 mgf_ok_Adler32,
        of "[0xFF, 0, 0, 0, 0, 0, 0, 0, 0, 0xBC]" "[1, 2, 3, 4]" 73 "Some 7"]
      p t hash_ok_Adler32 mgf_ok_Adler32
    by blast
qed



text \<open>
  Claim C4 (layout of the encoding). Under the preconditions of the round trip,
  \<^verbatim>\<open>pss_encode\<close> returns exactly \<open>emLen = ceil (N / 8)\<close> bytes; the last one is
  \<open>0xBC\<close>; the \<open>H\<close> bytes before it are the digest of eight zero bytes, \<open>d\<close> and \<open>s\<close>,
  unmasked; and the top \<open>8 * emLen - N\<close> bits of the first byte are clear.
\<close>

theorem pss_encode_layout:
  assumes "hash_ok hash" and "mgf_ok mgf"
    and "length d = output_length hash"
    and "8 * output_length hash + 8 * length s + 9 \<le> N"
  shows "\<exists>EM. pss_encode hash mgf d s N = Inr EM
    \<and> length EM = ceil_tobytes N
    \<and> EM ! (ceil_tobytes N - 1) = 0xBC
    \<and> take (output_length hash) (drop (ceil_tobytes N - output_length hash - 1) EM)
        = digest hash (replicate 8 0 @ d @ s)
    \<and> (\<forall>i. 8 - (8 * ceil_tobytes N - N) \<le> i \<longrightarrow> \<not> bit (EM ! 0) i)"
proof -
  let ?hs = "output_length hash"
  let ?n = "ceil_tobytes N"
  let ?H = "digest hash (replicate 8 0 @ d @ s)"
  obtain DB where enc: "pss_encode hash mgf d s N = Inr (DB @ ?H @ [0xBC])"
    and lenDB: "length DB = ?n - ?hs - 1" and ne: "DB \<noteq> []"
    and top: "\<forall>i. bit (hd DB) i \<longrightarrow> 8 * ?n - N + i < 8"
    using encode_shape [OF assms] by blast
  have lenH: "length ?H = ?hs"
    using assms(1) by (simp add: hash_ok_def)
  have n: "?hs + length s + 2 \<le> ?n"
    using assms(4) by (simp add: ceil_tobytes_def)
  have len: "length (DB @ ?H @ [0xBC]) = ?n"
    using n by (simp add: lenDB lenH)
  have "length (DB @ ?H) = ?n - 1"
    using n by (simp add: lenDB lenH)
  then have trailer: "(DB @ ?H @ [0xBC]) ! (?n - 1) = 0xBC"
    using nth_append_length [of "DB @ ?H" "0xBC" "[]"] by simp
  have mid: "take ?hs (drop (?n - ?hs - 1) (DB @ ?H @ [0xBC])) = ?H"
    by (simp add: lenDB lenH)
  have first: "(DB @ ?H @ [0xBC]) ! 0 = hd DB"
    using ne by (cases DB) simp_all
  have clear: "\<not> bit ((DB @ ?H @ [0xBC]) ! 0) i" if "8 - (8 * ?n - N) \<le> i" for i
  proof
    assume "bit ((DB @ ?H @ [0xBC]) ! 0) i"
    then have "8 * ?n - N + i < 8"
      using top by (simp add: first)
    with that show False by arith
  qed
  from enc len trailer mid clear show ?thesis
    by blast
qed

theorem pss_encode_layout_witness:
  "hash_ok Adler32 \<and> mgf_ok (mgf1 Adler32)
   \<and> length [1, 2, 3, 4 :: byte] = output_length Adler32
   \<and> 8 * output_length Adler32 + 8 * length [0xAA, 0xBB, 0xCC, 0xDD :: byte] + 9 \<le> (77 :: nat)
   \<and> (\<exists>EM. pss_encode Adler32 (mgf1 Adler32) [1, 2, 3, 4] [0xAA, 0xBB, 0xCC, 0xDD] 77 = Inr EM
      \<and> length EM = ceil_tobytes 77
      \<and> EM ! (ceil_tobytes 77 - 1) = 0xBC
      \<and> take (output_length Adler32) (drop (ceil_tobytes 77 - output_length Adler32 - 1) EM)
          = digest Adler32 (replicate 8 0 @ [1, 2, 3, 4] @ [0xAA, 0xBB, 0xCC, 0xDD])
      \<and> (\<forall>i. 8 - (8 * ceil_tobytes 77 - 77) \<le> i \<longrightarrow> \<not> bit (EM ! 0) i))"
proof -
  have l: "length [1, 2, 3, 4 :: byte] = output_length Adler32"
    and b: "8 * output_length Adler32 + 8 * length [0xAA, 0xBB, 0xCC, 0xDD :: byte] + 9 \<le> (77 :: nat)"
    by (simp_all add: Adler32_def)
  show ?thesis
    using pss_encode_layout [OF hash_ok_Adler32 mgf_ok_Adler32 l b] hash_ok_Adler32 mgf_ok_Adler32 l b
    by blast
qed

text \<open>
  Claim C5 (salt length policy). A codec object that requires a salt length, of either
  wrapper class, returns \<^verbatim>\<open>true\<close> from \<^verbatim>\<open>verify\<close> only when \<^verbatim>\<open>pss_verify\<close> succeeded
  and the salt length it stored is the required one (an object that requires none
  returns what \<^verbatim>\<open>pss_verify\<close> returned). So it returns \<^verbatim>\<open>false\<close> whenever the salt
  length behind \<^verbatim>\<open>salt_size\<close> differs from the required one, whether the comparison
  of the digests succeeded or not, and whenever \<^verbatim>\<open>pss_verify\<close> failed. In particular
  it rejects every encoding made by \<^verbatim>\<open>pss_encode\<close> with a salt of another length,
  against every digest, at the bit count of the encoding.
\<close>

theorem salt_length_policy:
  fixes p :: PSSR and q :: PSS_Raw
  shows "(pss_verify (m_hash p) mgf coded raw K (Some 0) = Inr (ok, loc)
      \<longrightarrow> PSSR_verify p mgf coded raw K
            = Inr (ok \<and> (m_required_salt_len p \<longrightarrow> loc = Some (m_salt_size p))))
    \<and> (pss_verify (m_hash q) mgf coded raw K (Some 0) = Inr (ok, loc)
      \<longrightarrow> PSS_Raw_verify q mgf coded raw K
            = Inr (ok \<and> (m_required_salt_len q \<longrightarrow> loc = Some (m_salt_size q))))
    \<and> (m_required_salt_len p
        \<and> pss_verify (m_hash p) mgf coded raw K (Some 0) = Inr (ok, Some sl)
        \<and> sl \<noteq> m_salt_size p
      \<longrightarrow> PSSR_verify p mgf coded raw K = Inr False)
    \<and> (m_required_salt_len q
        \<and> pss_verify (m_hash q) mgf coded raw K (Some 0) = Inr (ok, Some sl)
        \<and> sl \<noteq> m_salt_size q
      \<longrightarrow> PSS_Raw_verify q mgf coded raw K = Inr False)
    \<and> (m_required_salt_len p \<and> hash_ok (m_hash p) \<and> mgf_ok mgf
        \<and> length d = output_length (m_hash p)
        \<and> 8 * output_length (m_hash p) + 8 * length s + 9 \<le> N
        \<and> pss_encode (m_hash p) mgf d s N = Inr EM
        \<and> length s \<noteq> m_salt_size p
      \<longrightarrow> PSSR_verify p mgf EM d' N = Inr False)
    \<and> (m_required_salt_len q \<and> hash_ok (m_hash q) \<and> mgf_ok mgf
        \<and> length d = output_length (m_hash q)
        \<and> 8 * output_length (m_hash q) + 8 * length s + 9 \<le> N
        \<and> pss_encode (m_hash q) mgf d s N = Inr EM
        \<and> length s \<noteq> m_salt_size q
      \<longrightarrow> PSS_Raw_verify q mgf EM d' N = Inr False)"
proof -
  have enc: "\<exists>ok loc. pss_verify hash mgf EM d' N (Some 0) = Inr (ok, loc)
      \<and> (ok \<longrightarrow> loc = Some (length s))"
    if "hash_ok hash" "mgf_ok mgf" "length d = output_length hash"
      "8 * output_length hash + 8 * length s + 9 \<le> N" "pss_encode hash mgf d s N = Inr EM"
    for hash
  proof (cases "length d' = output_length hash")
    case True
    show ?thesis
      using verify_encoded [OF that(1-3) True that(4,5), of "Some 0"] by auto
  next
    case False
    then have "pss_verify hash mgf EM d' N (Some 0) = Inr (False, Some 0)"
      by (simp add: pss_verify_early)
    then show ?thesis by blast
  qed
  have 1: "pss_verify (m_hash p) mgf coded raw K (Some 0) = Inr (ok, loc)
      \<longrightarrow> PSSR_verify p mgf coded raw K
            = Inr (ok \<and> (m_required_salt_len p \<longrightarrow> loc = Some (m_salt_size p)))"
    by (auto simp add: PSSR_verify_def)
  have 2: "pss_verify (m_hash q) mgf coded raw K (Some 0) = Inr (ok, loc)
      \<longrightarrow> PSS_Raw_verify q mgf coded raw K
            = Inr (ok \<and> (m_required_salt_len q \<longrightarrow> loc = Some (m_salt_size q)))"
    by (auto simp add: PSS_Raw_verify_def)
  have 3: "m_required_salt_len p
        \<and> pss_verify (m_hash p) mgf coded raw K (Some 0) = Inr (ok, Some sl)
        \<and> sl \<noteq> m_salt_size p
      \<longrightarrow> PSSR_verify p mgf coded raw K = Inr False"
    by (auto simp add: PSSR_verify_def)
  have 4: "m_required_salt_len q
        \<and> pss_verify (m_hash q) mgf coded raw K (Some 0) = Inr (ok, Some sl)
        \<and> sl \<noteq> m_salt_size q
      \<longrightarrow> PSS_Raw_verify q mgf coded raw K = Inr False"
    by (auto simp add: PSS_Raw_verify_def)
  have 5: "m_required_salt_len p \<and> hash_ok (m_hash p) \<and> mgf_ok mgf
        \<and> length d = output_length (m_hash p)
        \<and> 8 * output_length (m_hash p) + 8 * length s + 9 \<le> N
        \<and> pss_encode (m_hash p) mgf d s N = Inr EM
        \<and> length s \<noteq> m_salt_size p
      \<longrightarrow> PSSR_verify p mgf EM d' N = Inr False"
  proof (intro impI, elim conjE)
    assume a: "m_required_salt_len p" "hash_ok (m_hash p)" "mgf_ok mgf"
      "length d = output_length (m_hash p)"
      "8 * output_length (m_hash p) + 8 * length s + 9 \<le> N"
      "pss_encode (m_hash p) mgf d s N = Inr EM" "length s \<noteq> m_salt_size p"
    obtain ok loc where "pss_verify (m_hash p) mgf EM d' N (Some 0) = Inr (ok, loc)"
      "ok \<longrightarrow> loc = Some (length s)"
      using enc [OF a(2-6)] by blast
    with a(1,7) show "PSSR_verify p mgf EM d' N = Inr False"
      by (auto simp add: PSSR_verify_def)
  qed
  have 6: "m_required_salt_len q \<and> hash_ok (m_hash q) \<and> mgf_ok mgf
        \<and> length d = output_length (m_hash q)
        \<and> 8 * output_length (m_hash q) + 8 * length s + 9 \<le> N
        \<and> pss_encode (m_hash q) mgf d s N = Inr EM
        \<and> length s \<noteq> m_salt_size q
      \<longrightarrow> PSS_Raw_verify q mgf EM d' N = Inr False"
  proof (intro impI, elim conjE)
    assume a: "m_required_salt_len q" "hash_ok (m_hash q)" "mgf_ok mgf"
      "length d = output_length (m_hash q)"
      "8 * output_length (m_hash q) + 8 * length s + 9 \<le> N"
      "pss_encode (m_hash q) mgf d s N = Inr EM" "length s \<noteq> m_salt_size q"
    obtain ok loc where "pss_verify (m_hash q) mgf EM d' N (Some 0) = Inr (ok, loc)"
      "ok \<longrightarrow> loc = Some (length s)"
      using enc [OF a(2-6)] by blast
    with a(1,7) show "PSS_Raw_verify q mgf EM d' N = Inr False"
      by (auto simp add: PSS_Raw_verify_def)
  qed
  from 1 2 3 4 5 6 show ?thesis
    by (intro conjI)
qed

theorem salt_length_policy_witness:
  "m_required_salt_len (PSSR_new_salt Adler32 3)
   \<and> m_required_salt_len (PSS_Raw_new_salt Adler32 3)
   \<and> hash_ok (m_hash (PSSR_new_salt Adler32 3)) \<and> mgf_ok (mgf1 Adler32)
   \<and> pss_encode Adler32 (mgf1 Adler32) [1, 2, 3, 4] [0xAA, 0xBB, 0xCC, 0xDD] 80
       = Inr [4, 175, 187, 114, 216, 7, 154, 3, 25, 188]
   \<and> length [0xAA, 0xBB, 0xCC, 0xDD :: byte] \<noteq> m_salt_size (PSSR_new_salt Adler32 3)
   \<and> pss_verify Adler32 (mgf1 Adler32) [4, 175, 187, 114, 216, 7, 154, 3, 25, 188]
        [1, 2, 3, 4] 80 (Some 0) = Inr (True, Some 4)
   \<and> PSSR_verify (PSSR_new_salt Adler32 3) (mgf1 Adler32)
        [4, 175, 187, 114, 216, 7, 154, 3, 25, 188] [1, 2, 3, 4] 80 = Inr False
   \<and> PSS_Raw_verify (PSS_Raw_new_salt Adler32 3) (mgf1 Adler32)
        [4, 175, 187, 114, 216, 7, 154, 3, 25, 188] [1, 2, 3, 4] 80 = Inr False
   \<and> pss_verify Adler32 (mgf1 Adler32) [4, 175, 187, 114, 216, 7, 154, 3, 25, 188]
        [1, 2, 3, 5] 80 (Some 0) = Inr (False, Some 0)
   \<and> PSSR_verify (PSSR_new_salt Adler32 3) (mgf1 Adler32)
        [4, 175, 187, 114, 216, 7, 154, 3, 25, 188] [1, 2, 3, 5] 80 = Inr False
   \<and> PSS_Raw_verify (PSS_Raw_new_salt Adler32 3) (mgf1 Adler32)
        [4, 175, 187, 114, 216, 7, 154, 3, 25, 188] [1, 2, 3, 5] 80 = Inr False
   \<and> PSSR_verify (PSSR_new_salt Adler32 4) (mgf1 Adler32)
        [4, 175, 187, 114, 216, 7, 154, 3, 25, 188] [1, 2, 3, 4] 80 = Inr True
   \<and> PSSR_verify (PSSR_new_salt Adler32 4) (mgf1 Adler32)
        [4, 175, 187, 114, 216, 7, 154, 3, 25, 188] [1, 2, 3, 5] 80 = Inr False
   \<and> PSSR_verify (PSSR_new_salt Adler32 0) (mgf1 Adler32)
        [4, 175, 187, 114, 216, 7, 154, 3, 25, 188] [1, 2, 3, 5] 80 = Inr False"
proof -
  let ?EM = "[4, 175, 187, 114, 216, 7, 154, 3, 25, 188 :: byte]"
  have v: "pss_verify Adler32 (mgf1 Adler32) ?EM [1, 2, 3, 4] 80 (Some 0) = Inr (True, Some 4)"
    using verify_encoded [OF hash_ok_Adler32 mgf_ok_Adler32 vector_facts(1,1,4) encode_vector,
        of "Some 0"]
    by simp
  have w: "pss_verify Adler32 (mgf1 Adler32) ?EM [1, 2, 3, 5] 80 (Some 0) = Inr (False, Some 0)"
    using verify_encoded [OF hash_ok_Adler32 mgf_ok_Adler32 vector_facts(1,3,4) encode_vector,
        of "Some 0"]
    by (simp add: vector_facts(5) replicate_8_zero adler32_digests)
  have h: "m_hash (PSSR_new_salt Adler32 n) = Adler32"
    "m_hash (PSS_Raw_new_salt Adler32 n) = Adler32"
    "m_required_salt_len (PSSR_new_salt Adler32 n)"
    "m_required_salt_len (PSS_Raw_new_salt Adler32 n)"
    "m_salt_size (PSSR_new_salt Adler32 n) = n"
    "m_salt_size (PSS_Raw_new_salt Adler32 n) = n" for n
    by (simp_all add: PSSR_new_salt_def PSS_Raw_new_salt_def)
  note inst = salt_length_policy [where mgf = "mgf1 Adler32" and N = 80 and K = 80
      and coded = ?EM and EM = ?EM and d = "[1, 2, 3, 4]" and s = "[0xAA, 0xBB, 0xCC, 0xDD]"]
  note a = inst [where p = "PSSR_new_salt Adler32 3" and q = "PSS_Raw_new_salt Adler32 3"
      and raw = "[1, 2, 3, 4]" and d' = "[1, 2, 3, 4]" and ok = True and loc = "Some 4" and sl = 4]
  note b = inst [where p = "PSSR_new_salt Adler32 3" and q = "PSS_Raw_new_salt Adler32 3"
      and raw = "[1, 2, 3, 5]" and d' = "[1, 2, 3, 5]" and ok = False and loc = "Some 0" and sl = 0]
  note c = inst [where p = "PSSR_new_salt Adler32 4" and q = "PSS_Raw_new_salt Adler32 4"
      and raw = "[1, 2, 3, 4]" and d' = "[1, 2, 3, 4]" and ok = True and loc = "Some 4" and sl = 4]
  note d = inst [where p = "PSSR_new_salt Adler32 4" and q = "PSS_Raw_new_salt Adler32 4"
      and raw = "[1, 2, 3, 5]" and d' = "[1, 2, 3, 5]" and ok = False and loc = "Some 0" and sl = 0]
  note e = inst [where p = "PSSR_new_salt Adler32 0" and q = "PSS_Raw_new_salt Adler32 0"
      and raw = "[1, 2, 3, 5]" and d' = "[1, 2, 3, 5]" and ok = False and loc = "Some 0" and sl = 0]
  show ?thesis
    using a b c d e v w encode_vector hash_ok_Adler32 mgf_ok_Adler32 vector_facts(1,4)
    by (simp add: h)
qed

text \<open>
  Claim C6 (left zero padding). For a representation of more than one byte, shorter
  than the key and ending in \<open>0xBC\<close>, and a digest of \<open>H\<close> bytes, \<^verbatim>\<open>pss_verify\<close>
  returns the same on the representation and on the representation padded on the left
  with zero bytes to the key length.
\<close>

theorem left_zero_padding_invariance:
  assumes "1 < length EM" and "length EM < ceil_tobytes K" and "last EM = 0xBC"
    and "length d = output_length hash"
  shows "pss_verify hash mgf (replicate (ceil_tobytes K - length EM) 0 @ EM) d K out
    = pss_verify hash mgf EM d K out"
proof (cases "K < 8 * output_length hash + 9")
  case True
  then show ?thesis
    by (simp add: pss_verify_early)
next
  case False
  then have K: "8 * output_length hash + 9 \<le> K" by simp
  let ?p = "replicate (ceil_tobytes K - length EM) 0 @ EM"
  have ne: "EM \<noteq> []" using assms(1) by auto
  have p: "1 < length ?p" "length ?p \<le> ceil_tobytes K" "last ?p = 0xBC"
    "ceil_tobytes K - length ?p = 0"
    using assms(1-3) ne by simp_all
  have "pss_verify hash mgf ?p d K out = verify_coded hash mgf ?p d K out"
    using pss_verify_guards [OF K assms(4) p(1-3), of mgf out] p(4) by simp
  also have "\<dots> = pss_verify hash mgf EM d K out"
    using pss_verify_guards [OF K assms(4) assms(1) _ assms(3), of mgf out] assms(2) by simp
  finally show ?thesis .
qed

theorem left_zero_padding_invariance_witness:
  "1 < length [108, 0, 13, 0, 2, 188 :: byte]
   \<and> length [108, 0, 13, 0, 2, 188 :: byte] < ceil_tobytes 56
   \<and> last [108, 0, 13, 0, 2, 188 :: byte] = 0xBC
   \<and> length [0, 0, 0, 1 :: byte] = output_length Adler32
   \<and> pss_verify Adler32 (mgf1 Adler32) [0, 108, 0, 13, 0, 2, 188] [0, 0, 0, 1] 56 None
       = Inr (True, None)
   \<and> pss_verify Adler32 (mgf1 Adler32) [108, 0, 13, 0, 2, 188] [0, 0, 0, 1] 56 None
       = Inr (True, None)"
proof -
  have l: "length [0, 0, 0, 1 :: byte] = output_length Adler32"
    and b: "8 * output_length Adler32 + 8 * length ([] :: byte list) + 9 \<le> (56 :: nat)"
    by (simp_all add: Adler32_def)
  have h: "1 < length [108, 0, 13, 0, 2, 188 :: byte]"
    "length [108, 0, 13, 0, 2, 188 :: byte] < ceil_tobytes 56"
    "last [108, 0, 13, 0, 2, 188 :: byte] = 0xBC"
    by (simp_all add: ceil_tobytes_def)
  have p: "replicate (ceil_tobytes 56 - length [108, 0, 13, 0, 2, 188 :: byte]) 0
      @ [108, 0, 13, 0, 2, 188 :: byte] = [0, 108, 0, 13, 0, 2, 188]"
    by (simp add: ceil_tobytes_def)
  have v: "pss_verify Adler32 (mgf1 Adler32) [0, 108, 0, 13, 0, 2, 188] [0, 0, 0, 1] 56 None
       = Inr (True, None)"
    using verify_encoded [OF hash_ok_Adler32 mgf_ok_Adler32 l l b encode_short_vector, of None]
    by simp
  show ?thesis
    using left_zero_padding_invariance [OF h l, of "mgf1 Adler32" None] h l v
    unfolding p by simp
qed

text \<open>
  Claim C7 (digest mismatch), as amended. Verifying the encoding of \<open>d\<close> with salt
  \<open>s\<close> against another digest \<open>d'\<close> of the same length returns \<^verbatim>\<open>false\<close> provided
  the hash tells the two apart, that is, the digests of eight zero bytes, \<open>d'\<close>, \<open>s\<close> and
  of eight zero bytes, \<open>d\<close>, \<open>s\<close> differ; where they collide, it returns \<^verbatim>\<open>true\<close>.
\<close>

theorem digest_mismatch_unless_collision:
  assumes "hash_ok hash" and "mgf_ok mgf"
    and "length d = output_length hash" and "length d' = output_length hash"
    and "8 * output_length hash + 8 * length s + 9 \<le> N"
    and "pss_encode hash mgf d s N = Inr EM"
    and "d' \<noteq> d"
  shows "(digest hash (replicate 8 0 @ d' @ s) \<noteq> digest hash (replicate 8 0 @ d @ s)
      \<longrightarrow> pss_verify hash mgf EM d' N out = Inr (False, out))
    \<and> (digest hash (replicate 8 0 @ d' @ s) = digest hash (replicate 8 0 @ d @ s)
      \<longrightarrow> (\<exists>out'. pss_verify hash mgf EM d' N out = Inr (True, out')))"
  using verify_encoded [OF assms(1-6), of out] by simp

theorem digest_mismatch_unless_collision_witness:
  "hash_ok Adler32 \<and> mgf_ok (mgf1 Adler32)
   \<and> length [1, 2, 3, 4 :: byte] = output_length Adler32
   \<and> length [1, 2, 3, 5 :: byte] = output_length Adler32
   \<and> 8 * output_length Adler32 + 8 * length [0xAA, 0xBB, 0xCC, 0xDD :: byte] + 9 \<le> (80 :: nat)
   \<and> pss_encode Adler32 (mgf1 Adler32) [1, 2, 3, 4] [0xAA, 0xBB, 0xCC, 0xDD] 80
       = Inr [4, 175, 187, 114, 216, 7, 154, 3, 25, 188]
   \<and> [1, 2, 3, 5 :: byte] \<noteq> [1, 2, 3, 4]
   \<and> digest Adler32 (replicate 8 0 @ [1, 2, 3, 5] @ [0xAA, 0xBB, 0xCC, 0xDD])
       \<noteq> digest Adler32 (replicate 8 0 @ [1, 2, 3, 4] @ [0xAA, 0xBB, 0xCC, 0xDD])
   \<and> pss_verify Adler32 (mgf1 Adler32) [4, 175, 187, 114, 216, 7, 154, 3, 25, 188]
        [1, 2, 3, 5] 80 (Some 7) = Inr (False, Some 7)"
proof -
  have ne: "[1, 2, 3, 5 :: byte] \<noteq> [1, 2, 3, 4]" by simp
  have dg: "digest Adler32 (replicate 8 0 @ [1, 2, 3, 5] @ [0xAA, 0xBB, 0xCC, 0xDD])
       \<noteq> digest Adler32 (replicate 8 0 @ [1, 2, 3, 4] @ [0xAA, 0xBB, 0xCC, 0xDD])"
    by (simp add: vector_facts(5) replicate_8_zero adler32_digests)
  show ?thesis
    using digest_mismatch_unless_collision [OF hash_ok_Adler32 mgf_ok_Adler32
        vector_facts(1,3,4) encode_vector ne, of "Some 7"]
      hash_ok_Adler32 mgf_ok_Adler32 vector_facts(1,3,4) encode_vector ne dg
    by blast
qed

text \<open>
  The claim C7 as it was stated, that every other digest of the same length is
  rejected, fails for a hash with collisions: under Adler-32 the digests \<open>01 02 03 04\<close>
  and \<open>02 00 04 04\<close> collide behind the eight zero bytes, whatever the salt.
\<close>

theorem digest_mismatch_counterexample:
  "hash_ok Adler32 \<and> mgf_ok (mgf1 Adler32)
   \<and> length [1, 2, 3, 4 :: byte] = output_length Adler32
   \<and> length [2, 0, 4, 4 :: byte] = output_length Adler32
   \<and> [2, 0, 4, 4 :: byte] \<noteq> [1, 2, 3, 4]
   \<and> pss_encode Adler32 (mgf1 Adler32) [1, 2, 3, 4] [0xAA, 0xBB, 0xCC, 0xDD] 80
       = Inr [4, 175, 187, 114, 216, 7, 154, 3, 25, 188]
   \<and> pss_verify Adler32 (mgf1 Adler32) [4, 175, 187, 114, 216, 7, 154, 3, 25, 188]
        [2, 0, 4, 4] 80 None = Inr (True, None)"
proof -
  have "pss_verify Adler32 (mgf1 Adler32) [4, 175, 187, 114, 216, 7, 154, 3, 25, 188]
        [2, 0, 4, 4] 80 None = Inr (True, None)"
    using verify_encoded [OF hash_ok_Adler32 mgf_ok_Adler32 vector_facts(1,2,4) encode_vector,
        of None]
    by (simp add: vector_facts(5) replicate_8_zero adler32_digests)
  then show ?thesis
    using hash_ok_Adler32 mgf_ok_Adler32 encode_vector vector_facts by simp
qed

text \<open>
  Claim C8 (concrete vector), as amended. For every hash with four bytes of output,
  the digest \<open>01 02 03 04\<close>, the salt \<open>AA BB CC DD\<close> and 80 bits: the encoding has ten
  bytes, byte 9 is \<open>0xBC\<close>, bytes 5 to 8 are the hash of eight zero bytes, the digest
  and the salt, in clear (bytes 0 to 4 are the masked data block), and verification
  against the digest at 80 bits returns \<^verbatim>\<open>true\<close>.
\<close>

theorem concrete_vector:
  assumes "hash_ok hash" and "output_length hash = 4" and "mgf_ok mgf"
  shows "\<exists>EM. pss_encode hash mgf [1, 2, 3, 4] [0xAA, 0xBB, 0xCC, 0xDD] 80 = Inr EM
    \<and> length EM = 10
    \<and> EM ! 9 = 0xBC
    \<and> take 4 (drop 5 EM) = digest hash (replicate 8 0 @ [1, 2, 3, 4] @ [0xAA, 0xBB, 0xCC, 0xDD])
    \<and> pss_verify hash mgf EM [1, 2, 3, 4] 80 None = Inr (True, None)"
proof -
  have l: "length [1, 2, 3, 4 :: byte] = output_length hash"
    and b: "8 * output_length hash + 8 * length [0xAA, 0xBB, 0xCC, 0xDD :: byte] + 9 \<le> (80 :: nat)"
    using assms(2) by simp_all
  let ?H = "digest hash (replicate 8 0 @ [1, 2, 3, 4] @ [0xAA, 0xBB, 0xCC, 0xDD])"
  obtain DB where enc: "pss_encode hash mgf [1, 2, 3, 4] [0xAA, 0xBB, 0xCC, 0xDD] 80
      = Inr (DB @ ?H @ [0xBC])"
    and "length DB = ceil_tobytes 80 - output_length hash - 1"
    using encode_shape [OF assms(1,3) l b] by blast
  then have lenDB: "length DB = 5"
    by (simp add: assms(2) ceil_tobytes_def)
  have lenH: "length (digest hash m) = 4" for m
    using assms(1,2) by (simp add: hash_ok_def)
  have len: "length (DB @ ?H @ [0xBC]) = 10"
    by (simp add: lenDB lenH)
  have "length (DB @ ?H) = 9"
    by (simp add: lenDB lenH)
  then have trailer: "(DB @ ?H @ [0xBC]) ! 9 = 0xBC"
    using nth_append_length [of "DB @ ?H" "0xBC" "[]"] by simp
  have mid: "take 4 (drop 5 (DB @ ?H @ [0xBC])) = ?H"
    by (simp add: lenDB lenH)
  have v: "pss_verify hash mgf (DB @ ?H @ [0xBC]) [1, 2, 3, 4] 80 None = Inr (True, None)"
    using verify_encoded [OF assms(1,3) l l b enc, of None] by simp
  from enc len trailer mid v show ?thesis
    by blast
qed

theorem concrete_vector_witness:
  "hash_ok Adler32 \<and> output_length Adler32 = 4 \<and> mgf_ok (mgf1 Adler32)
   \<and> (\<exists>EM. pss_encode Adler32 (mgf1 Adler32) [1, 2, 3, 4] [0xAA, 0xBB, 0xCC, 0xDD] 80 = Inr EM
      \<and> length EM = 10
      \<and> EM ! 9 = 0xBC
      \<and> take 4 (drop 5 EM)
          = digest Adler32 (replicate 8 0 @ [1, 2, 3, 4] @ [0xAA, 0xBB, 0xCC, 0xDD])
      \<and> pss_verify Adler32 (mgf1 Adler32) EM [1, 2, 3, 4] 80 None = Inr (True, None))"
proof -
  have o: "output_length Adler32 = 4" by (simp add: Adler32_def)
  show ?thesis
    using concrete_vector [OF hash_ok_Adler32 o mgf_ok_Adler32] hash_ok_Adler32 o mgf_ok_Adler32
    by blast
qed

text \<open>
  The claim C8 as it was stated, that bytes 4 to 7 of the encoding are the bytes
  \<open>01 02 03 04\<close> of the digest, fails under Adler-32: neither bytes 4 to 7 nor bytes 5
  to 8 of the encoding are the digest.
\<close>

theorem concrete_vector_counterexample:
  "hash_ok Adler32 \<and> mgf_ok (mgf1 Adler32) \<and> output_length Adler32 = 4
   \<and> pss_encode Adler32 (mgf1 Adler32) [1, 2, 3, 4] [0xAA, 0xBB, 0xCC, 0xDD] 80
       = Inr [4, 175, 187, 114, 216, 7, 154, 3, 25, 188]
   \<and> take 4 (drop 4 [4, 175, 187, 114, 216, 7, 154, 3, 25, 188 :: byte]) \<noteq> [1, 2, 3, 4]
   \<and> take 4 (drop 5 [4, 175, 187, 114, 216, 7, 154, 3, 25, 188 :: byte]) \<noteq> [1, 2, 3, 4]"
  using hash_ok_Adler32 mgf_ok_Adler32 encode_vector
  by (simp add: Adler32_def)

text \<open>
  Claim C9 (frame of the salt size location). Whenever \<^verbatim>\<open>pss_verify\<close> returns
  \<^verbatim>\<open>false\<close>, the location behind \<^verbatim>\<open>out_salt_size\<close> holds what it held before the
  call: the salt length is written only when the comparison of the digests succeeded.
\<close>

theorem out_salt_size_frame:
  assumes "pss_verify hash mgf r d K out = Inr (False, out')"
  shows "out' = out"
proof -
  have vc: "out' = out" if "verify_coded hash mgf coded d K out = Inr (False, out')" for coded
    using that unfolding verify_coded_def Let_def
    by (auto split: sum.splits option.splits if_splits)
  show ?thesis
    using assms vc unfolding pss_verify_def Let_def
    by (auto split: sum.splits if_splits)
qed

theorem out_salt_size_frame_witness:
  "pss_verify Adler32 (mgf1 Adler32) [4, 175, 187, 114, 216, 7, 154, 3, 25, 188]
      [1, 2, 3, 5] 80 (Some 7) = Inr (False, Some 7)
   \<and> (Some 7 :: nat option) = Some 7"
proof -
  have v: "pss_verify Adler32 (mgf1 Adler32) [4, 175, 187, 114, 216, 7, 154, 3, 25, 188]
      [1, 2, 3, 5] 80 (Some 7) = Inr (False, Some 7)"
    using verify_encoded [OF hash_ok_Adler32 mgf_ok_Adler32 vector_facts(1,3,4) encode_vector,
        of "Some 7"]
    by (simp add: vector_facts(5) replicate_8_zero adler32_digests)
  show ?thesis
    using out_salt_size_frame [OF v] v by simp
qed

text \<open>
  Claim C10 (\<^verbatim>\<open>raw_data\<close> empties the buffer). After every call of
  \<^verbatim>\<open>PSS_Raw::raw_data\<close> the message buffer is empty, also when the call throws
  \<^verbatim>\<open>Encoding_Error\<close> because the buffered length is not the hash's output length; the
  next \<^verbatim>\<open>update\<close> starts from the empty buffer.
\<close>

theorem raw_data_empties_buffer:
  "m_msg (snd (PSS_Raw_raw_data this)) = []
   \<and> m_msg (PSS_Raw_update (snd (PSS_Raw_raw_data this)) input) = input
   \<and> (length (m_msg this) \<noteq> output_length (m_hash this) \<longrightarrow>
        (\<exists>text. fst (PSS_Raw_raw_data this) = Inl (Encoding_Error text)))
   \<and> (length (m_msg this) = output_length (m_hash this) \<longrightarrow>
        fst (PSS_Raw_raw_data this) = Inr (m_msg this))"
  by (simp add: PSS_Raw_raw_data_def PSS_Raw_update_def Let_def)

theorem raw_data_empties_buffer_witness:
  "length (m_msg (PSS_Raw_update (PSS_Raw_new Adler32) [1, 2, 3]))
      \<noteq> output_length (m_hash (PSS_Raw_update (PSS_Raw_new Adler32) [1, 2, 3]))
   \<and> (\<exists>text. fst (PSS_Raw_raw_data (PSS_Raw_update (PSS_Raw_new Adler32) [1, 2, 3]))
        = Inl (Encoding_Error text))
   \<and> m_msg (snd (PSS_Raw_raw_data (PSS_Raw_update (PSS_Raw_new Adler32) [1, 2, 3]))) = []
   \<and> m_msg (PSS_Raw_update
        (snd (PSS_Raw_raw_data (PSS_Raw_update (PSS_Raw_new Adler32) [1, 2, 3]))) [9, 8, 7, 6])
       = [9, 8, 7, 6]"
proof -
  have n: "length (m_msg (PSS_Raw_update (PSS_Raw_new Adler32) [1, 2, 3]))
      \<noteq> output_length (m_hash (PSS_Raw_update (PSS_Raw_new Adler32) [1, 2, 3]))"
    by (simp add: PSS_Raw_update_def PSS_Raw_new_def Adler32_def)
  show ?thesis
    using raw_data_empties_buffer [of "PSS_Raw_update (PSS_Raw_new Adler32) [1, 2, 3]"
        "[9, 8, 7, 6]"] n
    by blast
qed

end
